theory Spec2Isabelle
  imports Main "HOL-Library.Word"
begin

section \<open>Qt strings, as far as \<open>src/qt/mytherraunits.cpp\<close> uses them\<close>

text \<open>
  A \<open>QString\<close> is a sequence of UTF-16 code units (\<open>QChar\<close>). The thin space U+2009
  that \<open>format\<close> inserts is one code unit, so strings are lists of 16-bit words and
  \<open>size()\<close> is \<open>length\<close>. \<open>CAmount\<close> and \<open>qint64\<close> are 64-bit signed integers; they
  are modelled as \<open>int\<close>, and the one place where the width decides a result (the range
  check of \<open>toLongLong\<close>) writes the bounds out. \<open>format\<close> negates its argument, which
  is undefined in C++ for the single value \<open>-2^63\<close>; the model is meant for every other
  64-bit amount.
\<close>

type_synonym QChar = "16 word"
type_synonym QString = "QChar list"
type_synonym CAmount = int
type_synonym qint8 = "8 word"

definition THIN_SP_CP :: QChar where
  "THIN_SP_CP = 0x2009"

definition ch_space :: QChar where
  "ch_space = 0x20"

definition ch_zero :: QChar where
  "ch_zero = 0x30"

definition ch_dot :: QChar where
  "ch_dot = 0x2E"

definition ch_minus :: QChar where
  "ch_minus = 0x2D"

definition ch_plus :: QChar where
  "ch_plus = 0x2B"

text \<open>The character of a decimal digit \<open>d < 10\<close>: \<open>'0' + d\<close>.\<close>

definition digit_of :: "nat \<Rightarrow> QChar" where
  "digit_of d = ch_zero + of_nat d"

definition is_digit :: "QChar \<Rightarrow> bool" where
  "is_digit c = (ch_zero \<le> c \<and> c \<le> 0x39)"

definition digit_value :: "QChar \<Rightarrow> nat" where
  "digit_value c = unat (c - ch_zero)"

text \<open>
  \<open>QString::number(qlonglong)\<close>, base 10: the decimal digits without leading zeros,
  \<open>"0"\<close> for zero, a leading \<open>'-'\<close> for a negative number.
\<close>

function number_digits :: "nat \<Rightarrow> QString" where
  "number_digits n =
     (if n < 10 then [digit_of n] else number_digits (n div 10) @ [digit_of (n mod 10)])"
  by pat_completeness auto
termination
  by (relation "measure (\<lambda>n. n)") auto

declare number_digits.simps [simp del]

definition QString_number :: "int \<Rightarrow> QString" where
  "QString_number n =
     (if n < 0 then ch_minus # number_digits (nat (- n)) else number_digits (nat n))"

text \<open>
  \<open>rightJustified(width, fill)\<close> and \<open>leftJustified(width, fill)\<close> with the default
  \<open>truncate = false\<close>: a string shorter than \<open>width\<close> is padded, any other string is
  returned as it is.
\<close>

definition rightJustified :: "nat \<Rightarrow> QChar \<Rightarrow> QString \<Rightarrow> QString" where
  "rightJustified width fill s = replicate (width - length s) fill @ s"

definition leftJustified :: "nat \<Rightarrow> QChar \<Rightarrow> QString \<Rightarrow> QString" where
  "leftJustified width fill s = s @ replicate (width - length s) fill"

text \<open>
  \<open>QString::insert(position, ch)\<close>. A position past the end extends the string with
  spaces first, as Qt does.
\<close>

definition QString_insert :: "nat \<Rightarrow> QChar \<Rightarrow> QString \<Rightarrow> QString" where
  "QString_insert position c s =
     (if position \<le> length s then take position s @ c # drop position s
      else s @ replicate (position - length s) ch_space @ [c])"

text \<open>\<open>QString::remove(ch)\<close>: every occurrence of the character is removed.\<close>

definition QString_remove :: "QChar \<Rightarrow> QString \<Rightarrow> QString" where
  "QString_remove c s = filter (\<lambda>x. x \<noteq> c) s"

text \<open>
  \<open>QString::split(sep)\<close> for a one-character separator, with the default
  \<open>Qt::KeepEmptyParts\<close>: the pieces between the occurrences of the separator, empty
  pieces included, so the result always has at least one element.
\<close>

fun QString_split :: "QChar \<Rightarrow> QString \<Rightarrow> QString list" where
  "QString_split sep [] = [[]]"
| "QString_split sep (c # cs) =
     (if c = sep then [] # QString_split sep cs
      else (case QString_split sep cs of
              [] \<Rightarrow> [[c]]
            | p # ps \<Rightarrow> (c # p) # ps))"

text \<open>
  \<open>QChar::isSpace\<close>: the ASCII control characters U+0009 to U+000D, the space, U+0085,
  U+00A0 and the Unicode separators (categories Zs, Zl, Zp).
\<close>

definition isSpace :: "QChar \<Rightarrow> bool" where
  "isSpace c =
     ((0x09 \<le> c \<and> c \<le> 0x0D) \<or> c = 0x20 \<or> c = 0x85 \<or> c = 0xA0 \<or> c = 0x1680
      \<or> (0x2000 \<le> c \<and> c \<le> 0x200A) \<or> c = 0x2028 \<or> c = 0x2029 \<or> c = 0x202F
      \<or> c = 0x205F \<or> c = 0x3000)"

definition trimmed :: "QString \<Rightarrow> QString" where
  "trimmed s = rev (dropWhile isSpace (rev (dropWhile isSpace s)))"

text \<open>The value of a string of decimal digits, most significant digit first.\<close>

definition digits_value :: "QString \<Rightarrow> nat" where
  "digits_value s = foldl (\<lambda>acc c. 10 * acc + digit_value c) 0 s"

text \<open>
  \<open>QString::toLongLong(&ok)\<close>, base 10, in the C locale: surrounding white space is
  ignored; then an optional sign and at least one decimal digit must make up the whole
  string, and the number has to fit 64 bits. On failure the result is 0 and \<open>ok\<close> is
  false. The pair is (value, ok).
\<close>

definition toLongLong :: "QString \<Rightarrow> int \<times> bool" where
  "toLongLong s =
     (case trimmed s of
        [] \<Rightarrow> (0, False)
      | c # r \<Rightarrow>
          (let neg = (c = ch_minus);
               ds = (if c = ch_minus \<or> c = ch_plus then r else c # r)
           in if ds = [] \<or> \<not> list_all is_digit ds then (0, False)
              else (let v = (if neg then - int (digits_value ds) else int (digits_value ds))
                    in if v < - (2 ^ 63) \<or> 2 ^ 63 - 1 < v then (0, False) else (v, True))))"

section \<open>\<open>MytherraUnits\<close>\<close>

datatype Unit = MYT | mMYT | uMYT | SAT

datatype SeparatorStyle = NEVER | STANDARD | ALWAYS

definition MAX_DIGITS_MYT :: nat where
  "MAX_DIGITS_MYT = 16"

fun factor :: "Unit \<Rightarrow> int" where
  "factor MYT = 100000000"
| "factor mMYT = 100000"
| "factor uMYT = 100"
| "factor SAT = 1"

fun decimals :: "Unit \<Rightarrow> nat" where
  "decimals MYT = 8"
| "decimals mMYT = 5"
| "decimals uMYT = 2"
| "decimals SAT = 0"

text \<open>
  The separator loop of \<open>format\<close>:
  \<^verbatim>\<open>for (int i = 3; i < q_size; i += 3) quotient_str.insert(q_size - i, thin_sp);\<close>
\<close>

function insert_separators :: "nat \<Rightarrow> nat \<Rightarrow> QString \<Rightarrow> QString" where
  "insert_separators q_size i s =
     (if i < q_size
      then insert_separators q_size (i + 3) (QString_insert (q_size - i) THIN_SP_CP s)
      else s)"
  by pat_completeness auto
termination
  by (relation "measure (\<lambda>(q_size, i, s). q_size - i)") auto

declare insert_separators.simps [simp del]

definition format :: "Unit \<Rightarrow> CAmount \<Rightarrow> bool \<Rightarrow> SeparatorStyle \<Rightarrow> bool \<Rightarrow> QString" where
  "format unit nIn fPlus separators justify =
     (let n = nIn;
          coin = factor unit;
          num_decimals = decimals unit;
          n_abs = (if n > 0 then n else - n);
          quotient = n_abs div coin;
          quotient_str0 = QString_number quotient;
          quotient_str1 =
            (if justify
             then rightJustified (MAX_DIGITS_MYT - num_decimals) ch_space quotient_str0
             else quotient_str0);
          q_size = length quotient_str1;
          quotient_str2 =
            (if separators = ALWAYS \<or> (separators = STANDARD \<and> q_size > 4)
             then insert_separators q_size 3 quotient_str1
             else quotient_str1);
          quotient_str3 =
            (if n < 0 then QString_insert 0 ch_minus quotient_str2
             else if fPlus \<and> n > 0 then QString_insert 0 ch_plus quotient_str2
             else quotient_str2)
      in if num_decimals > 0
         then (let remainder = n_abs mod coin;
                   remainder_str =
                     rightJustified num_decimals ch_zero (QString_number remainder)
               in quotient_str3 @ [ch_dot] @ remainder_str)
         else quotient_str3)"

definition removeSpaces :: "QString \<Rightarrow> QString" where
  "removeSpaces text = QString_remove THIN_SP_CP (QString_remove ch_space text)"

text \<open>
  \<open>parse\<close> writes through the pointer \<open>val_out\<close> only on the path that reaches
  \<open>toLongLong\<close>. The pointer is an option: \<open>None\<close> is the null pointer, \<open>Some v\<close> a cell
  that holds \<open>v\<close>. The result is the returned flag and the cell afterwards.
\<close>

definition parse :: "Unit \<Rightarrow> QString \<Rightarrow> CAmount option \<Rightarrow> bool \<times> CAmount option" where
  "parse unit val val_out =
     (if val = [] then (False, val_out)
      else
        (let num_decimals = decimals unit;
             parts = QString_split ch_dot (removeSpaces val)
         in if length parts > 2 then (False, val_out)
            else
              (let whole = hd parts;
                   decimals_str = (if length parts > 1 then parts ! 1 else [])
               in if length decimals_str > num_decimals then (False, val_out)
                  else
                    (let str = whole @ leftJustified num_decimals ch_zero decimals_str
                     in if length str > 18 then (False, val_out)
                        else
                          (let (retvalue, ok) = toLongLong str
                           in (ok, (case val_out of None \<Rightarrow> None
                                    | Some old \<Rightarrow> Some retvalue)))))))"

text \<open>
  The one-byte serialisation of a unit. \<open>FromQint8\<close> ends in \<open>assert(false)\<close> for any
  other byte: \<open>None\<close>.
\<close>

fun ToQint8 :: "Unit \<Rightarrow> qint8" where
  "ToQint8 MYT = 0"
| "ToQint8 mMYT = 1"
| "ToQint8 uMYT = 2"
| "ToQint8 SAT = 3"

definition FromQint8 :: "qint8 \<Rightarrow> Unit option" where
  "FromQint8 num =
     (if num = 0 then Some MYT
      else if num = 1 then Some mMYT
      else if num = 2 then Some uMYT
      else if num = 3 then Some SAT
      else None)"

text \<open>
  The two pieces of an amount string that the rejection rules of \<open>parse\<close> speak
  about: the text before the first \<open>'.'\<close> and the text after it.
\<close>

definition whole_part :: "QString \<Rightarrow> QString" where
  "whole_part s = takeWhile (\<lambda>c. c \<noteq> ch_dot) s"

definition fraction_part :: "QString \<Rightarrow> QString" where
  "fraction_part s = drop 1 (dropWhile (\<lambda>c. c \<noteq> ch_dot) s)"

text \<open>
  \<open>operator<<\<close> and \<open>operator>>\<close> on a \<open>QDataStream\<close>. The stream is the sequence
  of bytes not yet read; writing a \<open>qint8\<close> appends one byte, reading one takes the
  first byte. Reading from an exhausted stream leaves 0 in the variable, as Qt does.
\<close>

type_synonym QDataStream = "qint8 list"

definition stream_write_qint8 :: "QDataStream \<Rightarrow> qint8 \<Rightarrow> QDataStream" where
  "stream_write_qint8 out b = out @ [b]"

definition stream_read_qint8 :: "QDataStream \<Rightarrow> qint8 \<times> QDataStream" where
  "stream_read_qint8 inp = (case inp of [] \<Rightarrow> (0, []) | b # rest \<Rightarrow> (b, rest))"

definition write_unit :: "QDataStream \<Rightarrow> Unit \<Rightarrow> QDataStream" where
  "write_unit out unit = stream_write_qint8 out (ToQint8 unit)"

definition read_unit :: "QDataStream \<Rightarrow> Unit option \<times> QDataStream" where
  "read_unit inp = (let (input, inp') = stream_read_qint8 inp in (FromQint8 input, inp'))"

section \<open>The chainstate engine, modelled from the specification\<close>

text \<open>
  The coins view, the block connection and the block index are described by the
  specification (sections 3, 4.2 to 4.5 and 7); their code is not part of the source
  files verified above. Each definition of this section says which words of the
  specification it follows.
\<close>

subsection \<open>Coins, transactions and the UTXO set\<close>

text \<open>
  Modelled from the spec: the data model of section 3 (\<open>OutputReference\<close>, \<open>Coin\<close>,
  \<open>Transaction\<close> with its inputs and outputs); the declarations of these types are
  missing. Locking conditions and unlocking proofs are opaque values, a transaction
  carries its identifier and the mark of a reward transaction.
\<close>

type_synonym TxId = nat
type_synonym OutputReference = "TxId \<times> nat"
type_synonym Script = nat

record Coin =
  coin_value :: CAmount
  coin_lock :: Script
  coin_height :: nat
  coin_reward :: bool

record TxIn =
  prevout :: OutputReference
  unlocking :: Script

record TxOut =
  out_value :: CAmount
  out_lock :: Script

record Transaction =
  txid :: TxId
  is_reward :: bool
  tx_inputs :: "TxIn list"
  tx_outputs :: "TxOut list"

text \<open>
  Modelled from the spec: the undo log of the glossary, the "per-block record of
  exactly which coins were deleted/created"; its declaration is missing. One entry per
  transaction, in block order.
\<close>

record TxUndo =
  spent :: "(OutputReference \<times> Coin) list"
  created :: "OutputReference list"

text \<open>
  Modelled from the spec: the UTXO set of section 2, a "mapping from output reference
  to output descriptor"; the layered coins view that implements it is missing and the
  layers are not modelled.
\<close>

type_synonym UtxoSet = "OutputReference \<rightharpoonup> Coin"

text \<open>Modelled from the spec: the error taxonomy of section 7; the type is missing.\<close>

datatype RejectReason =
  Malformed | ConsensusViolation | ResourceExhausted | IoError | InternalInvariant

text \<open>
  Modelled from the spec: \<open>spendCoin(ref) -> Option<Coin>\<close> of section 4.2, which
  "removes the coin, returning its value"; the coins view code is missing.
\<close>

definition spendCoin :: "UtxoSet \<Rightarrow> OutputReference \<Rightarrow> (Coin \<times> UtxoSet) option" where
  "spendCoin S r = (case S r of None \<Rightarrow> None | Some c \<Rightarrow> Some (c, S(r := None)))"

text \<open>
  Modelled from the spec: \<open>addCoin(ref, coin, isFresh)\<close> of section 4.2, which fails
  with the fatal \<open>InternalInvariant\<close> when an existing coin would be overwritten
  without being spent first; the coins view code is missing. Without layers every
  existing coin counts as known to the parent.
\<close>

definition addCoin :: "UtxoSet \<Rightarrow> OutputReference \<Rightarrow> Coin \<Rightarrow> RejectReason + UtxoSet" where
  "addCoin S r c =
     (case S r of Some old \<Rightarrow> Inl InternalInvariant | None \<Rightarrow> Inr (S(r \<mapsto> c)))"

subsection \<open>Connecting and disconnecting a block\<close>

text \<open>
  Modelled from the spec: "spend all referenced inputs (failing the whole block if any
  input is missing or already spent earlier in the same block)" of section 4.4; the
  block connection code is missing. The coins removed are recorded in input order.
\<close>

fun spend_inputs ::
  "UtxoSet \<Rightarrow> TxIn list \<Rightarrow> RejectReason + UtxoSet \<times> (OutputReference \<times> Coin) list" where
  "spend_inputs S [] = Inr (S, [])"
| "spend_inputs S (i # ins) =
     (case spendCoin S (prevout i) of
        None \<Rightarrow> Inl ConsensusViolation
      | Some (c, S') \<Rightarrow>
          (case spend_inputs S' ins of
             Inl e \<Rightarrow> Inl e
           | Inr (S'', sp) \<Rightarrow> Inr (S'', (prevout i, c) # sp)))"

text \<open>
  Modelled from the spec: "then create its outputs as fresh coins" of section 4.4; the
  block connection code is missing. Output \<open>k\<close> of transaction \<open>t\<close> becomes the coin
  at reference \<open>(t, k)\<close>, created at height \<open>h\<close>.
\<close>

fun create_outputs ::
  "UtxoSet \<Rightarrow> TxId \<Rightarrow> nat \<Rightarrow> bool \<Rightarrow> nat \<Rightarrow> TxOut list
     \<Rightarrow> RejectReason + UtxoSet \<times> OutputReference list" where
  "create_outputs S t h rw k [] = Inr (S, [])"
| "create_outputs S t h rw k (out # outs) =
     (case addCoin S (t, k)
             \<lparr>coin_value = out_value out, coin_lock = out_lock out,
              coin_height = h, coin_reward = rw\<rparr> of
        Inl e \<Rightarrow> Inl e
      | Inr S' \<Rightarrow>
          (case create_outputs S' t h rw (Suc k) outs of
             Inl e \<Rightarrow> Inl e
           | Inr (S'', cr) \<Rightarrow> Inr (S'', (t, k) # cr)))"

text \<open>
  Modelled from the spec: the input and output values of a transaction (section 3),
  the input side being the values of the coins removed; the code that computes them is
  missing.
\<close>

definition value_in :: "(OutputReference \<times> Coin) list \<Rightarrow> CAmount" where
  "value_in sp = sum_list (map (\<lambda>(r, c). coin_value c) sp)"

definition value_out :: "Transaction \<Rightarrow> CAmount" where
  "value_out tx = sum_list (map out_value (tx_outputs tx))"

text \<open>
  Modelled from the spec: the script verifier of section 4.1,
  \<open>verify(lockingCondition, unlockingProof, spendingTransaction, inputIndex, flags,
  spentValue)\<close>, which the specification treats as a black box; the verifier is
  missing and enters as a parameter. \<open>verify_inputs\<close> is "run script verification on
  all inputs" of section 4.4.
\<close>

type_synonym Verifier = "Script \<Rightarrow> Script \<Rightarrow> Transaction \<Rightarrow> nat \<Rightarrow> nat \<Rightarrow> CAmount \<Rightarrow> bool"

fun verify_inputs ::
  "Verifier \<Rightarrow> nat \<Rightarrow> Transaction \<Rightarrow> nat \<Rightarrow> TxIn list \<Rightarrow> (OutputReference \<times> Coin) list
     \<Rightarrow> bool" where
  "verify_inputs verify flags tx k (i # ins) ((r, c) # sp) =
     (verify (coin_lock c) (unlocking i) tx k flags (coin_value c)
      \<and> verify_inputs verify flags tx (Suc k) ins sp)"
| "verify_inputs verify flags tx k ins sp = True"

text \<open>
  Modelled from the spec: one round of the connection loop of section 4.4, "for each
  transaction in order, spend all referenced inputs, run script verification on all
  inputs, then create its outputs as fresh coins"; the block connection code is
  missing. A reward transaction spends nothing. A failed script verification is a
  \<open>ConsensusViolation\<close> ("bad script", section 7).
\<close>

definition connect_tx ::
  "Verifier \<Rightarrow> nat \<Rightarrow> nat \<Rightarrow> UtxoSet \<Rightarrow> Transaction \<Rightarrow> RejectReason + UtxoSet \<times> TxUndo" where
  "connect_tx verify flags h S tx =
     (case (if is_reward tx then Inr (S, []) else spend_inputs S (tx_inputs tx)) of
        Inl e \<Rightarrow> Inl e
      | Inr (S1, sp) \<Rightarrow>
          if \<not> is_reward tx \<and> \<not> verify_inputs verify flags tx 0 (tx_inputs tx) sp
          then Inl ConsensusViolation
          else (case create_outputs S1 (txid tx) h (is_reward tx) 0 (tx_outputs tx) of
                  Inl e \<Rightarrow> Inl e
                | Inr (S2, cr) \<Rightarrow> Inr (S2, \<lparr>spent = sp, created = cr\<rparr>)))"

text \<open>
  Modelled from the spec: the connection loop of section 4.4 over the transactions "in
  block order", producing the undo log; the block connection code is missing.
\<close>

fun connect_txs ::
  "Verifier \<Rightarrow> nat \<Rightarrow> nat \<Rightarrow> UtxoSet \<Rightarrow> Transaction list
     \<Rightarrow> RejectReason + UtxoSet \<times> TxUndo list" where
  "connect_txs verify flags h S [] = Inr (S, [])"
| "connect_txs verify flags h S (tx # txs) =
     (case connect_tx verify flags h S tx of
        Inl e \<Rightarrow> Inl e
      | Inr (S1, u) \<Rightarrow>
          (case connect_txs verify flags h S1 txs of
             Inl e \<Rightarrow> Inl e
           | Inr (S2, us) \<Rightarrow> Inr (S2, u # us)))"

text \<open>
  Modelled from the spec: the fee of a transaction, "the difference" of its input and
  output values (section 3), summed over the block, and the value the reward
  transaction pays out; the code that computes them is missing.
\<close>

fun total_fees :: "Transaction list \<Rightarrow> TxUndo list \<Rightarrow> CAmount" where
  "total_fees (tx # txs) (u # us) =
     (if is_reward tx then 0 else value_in (spent u) - value_out tx) + total_fees txs us"
| "total_fees txs us = 0"

definition reward_claimed :: "Transaction list \<Rightarrow> CAmount" where
  "reward_claimed txs = sum_list (map value_out (filter is_reward txs))"

text \<open>
  Modelled from the spec: connecting a block, section 4.4: the loop, and "finally
  verify total fees", that is "cumulative fees plus the fixed reward schedule bound the
  reward transaction's output value"; the block connection code and the reward
  schedule are missing, the schedule \<open>subsidy\<close> (by height) is a parameter. A
  rejected block returns no UTXO set: the caller keeps the one it had.
\<close>

definition connect_block ::
  "Verifier \<Rightarrow> nat \<Rightarrow> (nat \<Rightarrow> CAmount) \<Rightarrow> nat \<Rightarrow> UtxoSet \<Rightarrow> Transaction list
     \<Rightarrow> RejectReason + UtxoSet \<times> TxUndo list" where
  "connect_block verify flags subsidy h S txs =
     (case connect_txs verify flags h S txs of
        Inl e \<Rightarrow> Inl e
      | Inr (S', undo) \<Rightarrow>
          if reward_claimed txs \<le> subsidy h + total_fees txs undo
          then Inr (S', undo)
          else Inl ConsensusViolation)"

text \<open>
  Modelled from the spec: step 4 of section 4.5, "undo its UTXO effects (delete its
  outputs, resurrect the coins it spent, using a side-record of what was spent)"; the
  disconnection code is missing. Both steps go through the coins view operations, so a
  log that does not fit the set is an \<open>InternalInvariant\<close> failure.
\<close>

fun delete_outputs :: "UtxoSet \<Rightarrow> OutputReference list \<Rightarrow> RejectReason + UtxoSet" where
  "delete_outputs S [] = Inr S"
| "delete_outputs S (r # rs) =
     (case spendCoin S r of
        None \<Rightarrow> Inl InternalInvariant
      | Some (c, S') \<Rightarrow> delete_outputs S' rs)"

fun resurrect :: "UtxoSet \<Rightarrow> (OutputReference \<times> Coin) list \<Rightarrow> RejectReason + UtxoSet" where
  "resurrect S [] = Inr S"
| "resurrect S ((r, c) # sp) =
     (case addCoin S r c of
        Inl e \<Rightarrow> Inl e
      | Inr S' \<Rightarrow> resurrect S' sp)"

text \<open>
  Modelled from the spec: the "exact reversal on disconnect" of the glossary; the
  disconnection code is missing. The transactions of the block are undone last to
  first, and within a transaction the outputs and then the inputs, last to first.
\<close>

definition disconnect_tx :: "UtxoSet \<Rightarrow> TxUndo \<Rightarrow> RejectReason + UtxoSet" where
  "disconnect_tx S u =
     (case delete_outputs S (rev (created u)) of
        Inl e \<Rightarrow> Inl e
      | Inr S1 \<Rightarrow> resurrect S1 (rev (spent u)))"

fun disconnect_txs :: "UtxoSet \<Rightarrow> TxUndo list \<Rightarrow> RejectReason + UtxoSet" where
  "disconnect_txs S [] = Inr S"
| "disconnect_txs S (u # us) =
     (case disconnect_tx S u of
        Inl e \<Rightarrow> Inl e
      | Inr S1 \<Rightarrow> disconnect_txs S1 us)"

definition disconnect_block :: "UtxoSet \<Rightarrow> TxUndo list \<Rightarrow> RejectReason + UtxoSet" where
  "disconnect_block S undo = disconnect_txs S (rev undo)"

text \<open>
  A block for the examples: a reward transaction that claims the subsidy of 25 and a
  fee of 1, and a transaction that spends a coin of 50 and pays out 49.
\<close>

definition always_valid :: Verifier where
  "always_valid lock proof tx k flags v = True"

definition example_utxo :: UtxoSet where
  "example_utxo =
     [(1, 0) \<mapsto> \<lparr>coin_value = 50, coin_lock = 7, coin_height = 1, coin_reward = True\<rparr>]"

definition example_block :: "Transaction list" where
  "example_block =
     [\<lparr>txid = 10, is_reward = True, tx_inputs = [],
        tx_outputs = [\<lparr>out_value = 26, out_lock = 8\<rparr>]\<rparr>,
      \<lparr>txid = 11, is_reward = False,
        tx_inputs = [\<lparr>prevout = (1, 0), unlocking = 7\<rparr>],
        tx_outputs = [\<lparr>out_value = 49, out_lock = 9\<rparr>]\<rparr>]"

text \<open>
  Two more blocks on the same UTXO set, each with two inputs that reference the coin
  \<open>(1, 0)\<close>. In the first a transaction with identifier 1 stands between the two
  spends and creates the reference again. In the second the reward transaction has
  identifier 1, so its output collides with the coin.
\<close>

definition recreate_block :: "Transaction list" where
  "recreate_block =
     [\<lparr>txid = 20, is_reward = False,
        tx_inputs = [\<lparr>prevout = (1, 0), unlocking = 7\<rparr>],
        tx_outputs = [\<lparr>out_value = 50, out_lock = 9\<rparr>]\<rparr>,
      \<lparr>txid = 1, is_reward = False,
        tx_inputs = [\<lparr>prevout = (20, 0), unlocking = 7\<rparr>],
        tx_outputs = [\<lparr>out_value = 50, out_lock = 9\<rparr>]\<rparr>,
      \<lparr>txid = 21, is_reward = False,
        tx_inputs = [\<lparr>prevout = (1, 0), unlocking = 7\<rparr>],
        tx_outputs = [\<lparr>out_value = 50, out_lock = 9\<rparr>]\<rparr>]"

definition collide_block :: "Transaction list" where
  "collide_block =
     [\<lparr>txid = 1, is_reward = True, tx_inputs = [],
        tx_outputs = [\<lparr>out_value = 25, out_lock = 8\<rparr>]\<rparr>,
      \<lparr>txid = 21, is_reward = False,
        tx_inputs = [\<lparr>prevout = (1, 0), unlocking = 7\<rparr>,
                     \<lparr>prevout = (1, 0), unlocking = 7\<rparr>],
        tx_outputs = [\<lparr>out_value = 50, out_lock = 9\<rparr>]\<rparr>]"

subsection \<open>The block index\<close>

text \<open>
  Modelled from the spec: \<open>BlockIndexNode\<close> of section 3 with its validity status,
  cumulative work, height and "back-reference to its parent node", and the arena of
  section 9, "nodes addressed by stable identifier (the block hash) with parent
  references as lookups into the arena"; the block index code is missing. The arena
  is the list of the nodes in first-seen order.
\<close>

type_synonym BlockHash = nat

datatype Validity = Unknown | HeaderValid | TreeValid | ScriptsValid | Invalid | InvalidAncestor

record Header =
  header_hash :: BlockHash
  prev_hash :: "BlockHash option"
  header_work :: nat

record BlockIndexNode =
  node_hash :: BlockHash
  node_parent :: "BlockHash option"
  chain_work :: nat
  node_height :: nat
  status :: Validity

type_synonym BlockIndex = "BlockIndexNode list"

definition lookup_node :: "BlockIndex \<Rightarrow> BlockHash \<Rightarrow> BlockIndexNode option" where
  "lookup_node idx h = find (\<lambda>n. node_hash n = h) idx"

text \<open>
  Modelled from the spec: \<open>addHeader(header)\<close> of section 4.3, which "computes
  cumulative work as parent's work + work-of-this-header"; the block index code is
  missing. A known header is returned as it is, a header with an unknown parent is not
  added.
\<close>

definition addHeader :: "BlockIndex \<Rightarrow> Header \<Rightarrow> BlockIndex \<times> BlockIndexNode option" where
  "addHeader idx hdr =
     (case lookup_node idx (header_hash hdr) of
        Some n \<Rightarrow> (idx, Some n)
      | None \<Rightarrow>
          (case prev_hash hdr of
             None \<Rightarrow>
               (let n = \<lparr>node_hash = header_hash hdr, node_parent = None,
                         chain_work = header_work hdr, node_height = 0,
                         status = HeaderValid\<rparr>
                in (idx @ [n], Some n))
           | Some p \<Rightarrow>
               (case lookup_node idx p of
                  None \<Rightarrow> (idx, None)
                | Some pn \<Rightarrow>
                    (let n = \<lparr>node_hash = header_hash hdr, node_parent = Some p,
                              chain_work = chain_work pn + header_work hdr,
                              node_height = Suc (node_height pn),
                              status = HeaderValid\<rparr>
                     in (idx @ [n], Some n)))))"

text \<open>
  Modelled from the spec: \<open>findBestCandidate()\<close> of section 4.3, "selecting, among
  nodes marked at least \<open>TreeValid\<close> and not \<open>Invalid\<close>/\<open>InvalidAncestor\<close>, the one
  with the greatest cumulative work, tie-broken by first-seen order"; the block index
  code is missing.
\<close>

definition is_candidate :: "BlockIndexNode \<Rightarrow> bool" where
  "is_candidate n = (status n = TreeValid \<or> status n = ScriptsValid)"

definition better :: "BlockIndexNode option \<Rightarrow> BlockIndexNode \<Rightarrow> BlockIndexNode option" where
  "better best n =
     (if is_candidate n \<and> (case best of None \<Rightarrow> True | Some b \<Rightarrow> chain_work b < chain_work n)
      then Some n else best)"

definition findBestCandidate :: "BlockIndex \<Rightarrow> BlockIndexNode option" where
  "findBestCandidate idx = foldl better None idx"

text \<open>
  Modelled from the spec: "Marking a node \<open>Invalid\<close> must transitively mark all of its
  descendants \<open>InvalidAncestor\<close> and trigger re-evaluation of the best candidate" of
  section 4.3; the block index code is missing. One pass over the arena in first-seen
  order: \<open>bad\<close> holds the hashes marked so far, and a node whose parent is among them
  is marked too. The result is the new arena and the re-evaluated best candidate.
\<close>

fun mark_pass :: "BlockHash \<Rightarrow> BlockHash list \<Rightarrow> BlockIndex \<Rightarrow> BlockIndex" where
  "mark_pass h bad [] = []"
| "mark_pass h bad (n # ns) =
     (if node_hash n = h
      then n\<lparr>status := Invalid\<rparr> # mark_pass h (node_hash n # bad) ns
      else if (case node_parent n of None \<Rightarrow> False | Some p \<Rightarrow> p \<in> set bad)
      then n\<lparr>status := InvalidAncestor\<rparr> # mark_pass h (node_hash n # bad) ns
      else n # mark_pass h bad ns)"

definition markInvalid :: "BlockIndex \<Rightarrow> BlockHash \<Rightarrow> BlockIndex \<times> BlockIndexNode option" where
  "markInvalid idx h = (let idx' = mark_pass h [] idx in (idx', findBestCandidate idx'))"

text \<open>
  The arenas that \<open>addHeader\<close> builds: no hash occurs twice, and the parent of a node
  stands before the node. \<open>descendant idx a d\<close> says that the node with hash \<open>d\<close> is
  reached from the node with hash \<open>a\<close> by following parent references backwards.
  \<open>marked\<close> is what marking \<open>h\<close> invalid should make of a node.
\<close>

fun wf_from :: "BlockHash list \<Rightarrow> BlockIndex \<Rightarrow> bool" where
  "wf_from seen [] = True"
| "wf_from seen (n # ns) =
     (node_hash n \<notin> set seen
      \<and> (case node_parent n of None \<Rightarrow> True | Some p \<Rightarrow> p \<in> set seen)
      \<and> wf_from (node_hash n # seen) ns)"

definition wf_index :: "BlockIndex \<Rightarrow> bool" where
  "wf_index idx = wf_from [] idx"

inductive descendant :: "BlockIndex \<Rightarrow> BlockHash \<Rightarrow> BlockHash \<Rightarrow> bool"
  for idx :: BlockIndex and a :: BlockHash where
  child: "n \<in> set idx \<Longrightarrow> node_parent n = Some a \<Longrightarrow> descendant idx a (node_hash n)"
| step: "descendant idx a m \<Longrightarrow> n \<in> set idx \<Longrightarrow> node_parent n = Some m
           \<Longrightarrow> descendant idx a (node_hash n)"

definition marked :: "BlockIndex \<Rightarrow> BlockHash \<Rightarrow> BlockIndexNode \<Rightarrow> BlockIndexNode" where
  "marked idx h n =
     (if node_hash n = h then n\<lparr>status := Invalid\<rparr>
      else if descendant idx h (node_hash n) then n\<lparr>status := InvalidAncestor\<rparr>
      else n)"

text \<open>
  An arena for the examples: a genesis block 100, the chain 101, 102 on it and the
  competing block 103.
\<close>

definition example_index :: BlockIndex where
  "example_index =
     [\<lparr>node_hash = 100, node_parent = None, chain_work = 1, node_height = 0,
        status = ScriptsValid\<rparr>,
      \<lparr>node_hash = 101, node_parent = Some 100, chain_work = 11, node_height = 1,
        status = ScriptsValid\<rparr>,
      \<lparr>node_hash = 102, node_parent = Some 101, chain_work = 31, node_height = 2,
        status = TreeValid\<rparr>,
      \<lparr>node_hash = 103, node_parent = Some 100, chain_work = 11, node_height = 1,
        status = TreeValid\<rparr>]"

section \<open>Lemmas about the string functions\<close>

lemma digit_cases: "d < 10 \<Longrightarrow> d \<in> {0, 1, 2, 3, 4, 5, 6, 7, 8, 9::nat}"
  by auto

lemma is_digit_digit_of: "d < 10 \<Longrightarrow> is_digit (digit_of d)"
  by (drule digit_cases) (auto simp: is_digit_def digit_of_def ch_zero_def)

lemma digit_value_digit_of: "d < 10 \<Longrightarrow> digit_value (digit_of d) = d"
  by (drule digit_cases) (auto simp: digit_value_def digit_of_def ch_zero_def)

lemma is_digit_not_special:
  "is_digit c \<Longrightarrow> c \<noteq> ch_space \<and> c \<noteq> THIN_SP_CP \<and> c \<noteq> ch_dot \<and> c \<noteq> ch_minus \<and> c \<noteq> ch_plus \<and> \<not> isSpace c"
  by (auto simp: is_digit_def ch_zero_def ch_space_def THIN_SP_CP_def ch_dot_def ch_minus_def ch_plus_def isSpace_def word_le_nat_alt)

lemma is_digit_ch_zero: "is_digit ch_zero"
  by (simp add: is_digit_def ch_zero_def)

lemma digit_value_ch_zero: "digit_value ch_zero = 0"
  by (simp add: digit_value_def)

lemma number_digits_all_digits: "list_all is_digit (number_digits n)"
proof (induction n rule: number_digits.induct)
  case (1 n)
  show ?case
  proof (cases "n < 10")
    case True
    then show ?thesis by (simp add: number_digits.simps [of n] is_digit_digit_of)
  next
    case False
    then have "list_all is_digit (number_digits (n div 10))" using 1 by simp
    moreover have "is_digit (digit_of (n mod 10))" by (simp add: is_digit_digit_of)
    ultimately show ?thesis using False by (simp add: number_digits.simps [of n])
  qed
qed

lemma number_digits_nonempty: "number_digits n \<noteq> []"
  by (simp add: number_digits.simps [of n])

lemma digits_value_snoc: "digits_value (s @ [c]) = 10 * digits_value s + digit_value c"
  by (simp add: digits_value_def)

lemma digits_value_append:
  "digits_value (a @ b) = digits_value a * 10 ^ length b + digits_value b"
proof (induction b rule: rev_induct)
  case Nil
  show ?case by (simp add: digits_value_def)
next
  case (snoc c b)
  have "digits_value (a @ b @ [c]) = 10 * digits_value (a @ b) + digit_value c"
    using digits_value_snoc [of "a @ b" c] by simp
  then show ?case by (simp add: snoc digits_value_snoc algebra_simps)
qed

lemma digits_value_number_digits: "digits_value (number_digits n) = n"
proof (induction n rule: number_digits.induct)
  case (1 n)
  show ?case
  proof (cases "n < 10")
    case True
    then show ?thesis
      by (simp add: number_digits.simps [of n] digits_value_def digit_value_digit_of)
  next
    case False
    then have "digits_value (number_digits (n div 10)) = n div 10" using 1 by simp
    then show ?thesis using False
      by (simp add: number_digits.simps [of n] digits_value_snoc digit_value_digit_of)
  qed
qed

lemma digits_value_zeros: "digits_value (replicate k ch_zero) = 0"
proof (induction k)
  case 0
  show ?case by (simp add: digits_value_def)
next
  case (Suc k)
  have "replicate (Suc k) ch_zero = replicate k ch_zero @ [ch_zero]"
    by (simp add: replicate_append_same)
  then show ?case using Suc digits_value_snoc [of "replicate k ch_zero" ch_zero]
    by (simp add: digit_value_ch_zero del: replicate.simps)
qed

lemma length_number_digits: "0 < k \<Longrightarrow> n < 10 ^ k \<Longrightarrow> length (number_digits n) \<le> k"
proof (induction n arbitrary: k rule: number_digits.induct)
  case (1 n)
  show ?case
  proof (cases "n < 10")
    case True
    then show ?thesis using "1.prems" by (simp add: number_digits.simps [of n])
  next
    case False
    then obtain j where k: "k = Suc j" using "1.prems" by (cases k) auto
    have "0 < j" using False "1.prems" k by (cases j) auto
    moreover have "n div 10 < 10 ^ j" using "1.prems" k by (simp add: less_mult_imp_div_less)
    ultimately have "length (number_digits (n div 10)) \<le> j" using "1.IH" False by simp
    then show ?thesis using False k by (simp add: number_digits.simps [of n])
  qed
qed

lemma removeSpaces_filter:
  "removeSpaces s = filter (\<lambda>x. x \<noteq> ch_space \<and> x \<noteq> THIN_SP_CP) s"
  by (simp add: removeSpaces_def QString_remove_def conj_commute)

lemma removeSpaces_append: "removeSpaces (a @ b) = removeSpaces a @ removeSpaces b"
  by (simp add: removeSpaces_filter)

lemma removeSpaces_insert_thin:
  "p \<le> length s \<Longrightarrow> removeSpaces (QString_insert p THIN_SP_CP s) = removeSpaces s"
proof -
  assume "p \<le> length s"
  then have "removeSpaces (QString_insert p THIN_SP_CP s)
      = removeSpaces (take p s) @ removeSpaces (drop p s)"
    by (simp add: QString_insert_def removeSpaces_filter)
  also have "\<dots> = removeSpaces (take p s @ drop p s)"
    by (simp only: removeSpaces_append)
  finally show ?thesis by simp
qed

lemma removeSpaces_insert_separators:
  "q_size \<le> length s \<Longrightarrow> removeSpaces (insert_separators q_size i s) = removeSpaces s"
proof (induction q_size i s rule: insert_separators.induct)
  case (1 q_size i s)
  show ?case
  proof (cases "i < q_size")
    case True
    have le: "q_size - i \<le> length s" using "1.prems" by simp
    have "q_size \<le> length (QString_insert (q_size - i) THIN_SP_CP s)"
      using "1.prems" le by (simp add: QString_insert_def)
    then have "removeSpaces (insert_separators q_size (i + 3) (QString_insert (q_size - i) THIN_SP_CP s))
        = removeSpaces (QString_insert (q_size - i) THIN_SP_CP s)"
      using "1.IH" True by simp
    then show ?thesis using True le
      by (simp add: insert_separators.simps [of q_size i s] removeSpaces_insert_thin)
  next
    case False
    then show ?thesis by (simp add: insert_separators.simps [of q_size i s])
  qed
qed

lemma removeSpaces_spaces: "removeSpaces (replicate k ch_space) = []"
  by (simp add: removeSpaces_filter)

lemma removeSpaces_id:
  "\<forall>x \<in> set s. x \<noteq> ch_space \<and> x \<noteq> THIN_SP_CP \<Longrightarrow> removeSpaces s = s"
  by (simp add: removeSpaces_filter)

lemma QString_split_nonempty: "QString_split sep s \<noteq> []"
  by (induction s) (auto split: list.splits)

lemma QString_split_no_sep: "sep \<notin> set s \<Longrightarrow> QString_split sep s = [s]"
  by (induction s) auto

lemma QString_split_one_sep:
  "sep \<notin> set a \<Longrightarrow> sep \<notin> set b \<Longrightarrow> QString_split sep (a @ sep # b) = [a, b]"
  by (induction a) (auto simp: QString_split_no_sep)

lemma length_QString_split: "length (QString_split sep s) = Suc (count_list s sep)"
  by (induction s) (auto split: list.splits simp: QString_split_nonempty)

lemma trimmed_id: "\<forall>x \<in> set s. \<not> isSpace x \<Longrightarrow> trimmed s = s"
proof -
  assume a: "\<forall>x \<in> set s. \<not> isSpace x"
  have d: "\<And>t. \<forall>x \<in> set t. \<not> isSpace x \<Longrightarrow> dropWhile isSpace t = t"
    by (case_tac t) auto
  show ?thesis using a by (simp add: trimmed_def d)
qed


lemma toLongLong_digits:
  assumes "ds \<noteq> []" and "list_all is_digit ds" and "digits_value ds < 2 ^ 63"
  shows "toLongLong ds = (int (digits_value ds), True)"
    and "toLongLong (ch_plus # ds) = (int (digits_value ds), True)"
    and "toLongLong (ch_minus # ds) = (- int (digits_value ds), True)"
proof -
  have nsp: "\<forall>x \<in> set ds. \<not> isSpace x"
    using assms(2) is_digit_not_special by (auto simp: list_all_iff)
  obtain c r where ds: "ds = c # r" using assms(1) by (cases ds) auto
  have c: "c \<noteq> ch_minus" "c \<noteq> ch_plus"
    using assms(2) is_digit_not_special [of c] by (auto simp: ds)
  have b: "int (digits_value ds) \<le> 2 ^ 63 - 1" "- (2 ^ 63) \<le> int (digits_value ds)"
          "- (2 ^ 63) \<le> - int (digits_value ds)" "- int (digits_value ds) \<le> 2 ^ 63 - 1"
    using assms(3) by auto
  have "trimmed ds = ds" using nsp by (rule trimmed_id)
  then show "toLongLong ds = (int (digits_value ds), True)"
    using assms(2) c b unfolding toLongLong_def by (simp add: ds Let_def)
  have "\<not> isSpace ch_plus" "\<not> isSpace ch_minus"
    by (simp_all add: isSpace_def ch_plus_def ch_minus_def)
  then have t: "trimmed (ch_plus # ds) = ch_plus # ds" "trimmed (ch_minus # ds) = ch_minus # ds"
    using nsp by (simp_all add: trimmed_id)
  have pm: "ch_plus \<noteq> ch_minus" by (simp add: ch_plus_def ch_minus_def)
  show "toLongLong (ch_plus # ds) = (int (digits_value ds), True)"
    using assms(1,2) b pm unfolding toLongLong_def t by (simp add: Let_def)
  show "toLongLong (ch_minus # ds) = (- int (digits_value ds), True)"
    using assms(1,2) b pm unfolding toLongLong_def t by (simp add: Let_def)
qed

lemma factor_decimals: "factor u = 10 ^ decimals u"
  by (cases u) simp_all

lemma decimals_le_8: "decimals u \<le> 8"
  by (cases u) simp_all


lemma factor_pos: "0 < factor u"
  by (cases u) simp_all

lemma removeSpaces_number_digits: "removeSpaces (number_digits k) = number_digits k"
proof (rule removeSpaces_id)
  show "\<forall>x\<in>set (number_digits k). x \<noteq> ch_space \<and> x \<noteq> THIN_SP_CP"
    using number_digits_all_digits [of k] is_digit_not_special by (auto simp: list_all_iff)
qed

lemma removeSpaces_sign:
  "removeSpaces (ch_minus # s) = ch_minus # removeSpaces s"
  "removeSpaces (ch_plus # s) = ch_plus # removeSpaces s"
  "removeSpaces (ch_dot # s) = ch_dot # removeSpaces s"
  by (simp_all add: removeSpaces_filter ch_minus_def ch_plus_def ch_dot_def ch_space_def THIN_SP_CP_def)

lemma removeSpaces_zeros: "removeSpaces (replicate k ch_zero) = replicate k ch_zero"
  by (rule removeSpaces_id) (simp add: ch_zero_def ch_space_def THIN_SP_CP_def)

lemma format_removeSpaces:
  fixes n :: int and u :: Unit
  defines "q \<equiv> nat (\<bar>n\<bar> div factor u)" and "r \<equiv> nat (\<bar>n\<bar> mod factor u)"
  shows "removeSpaces (format u n fPlus sep justify) =
     (if n < 0 then [ch_minus] else if fPlus \<and> 0 < n then [ch_plus] else []) @
     number_digits q @
     (if 0 < decimals u
      then ch_dot # replicate (decimals u - length (number_digits r)) ch_zero @ number_digits r
      else [])"
proof -
  have nabs: "(if n > 0 then n else - n) = \<bar>n\<bar>" by simp
  have q0: "0 \<le> \<bar>n\<bar> div factor u" using factor_pos [of u] by (simp add: pos_imp_zdiv_nonneg_iff)
  have r0: "0 \<le> \<bar>n\<bar> mod factor u" using factor_pos [of u] by simp
  have qn: "QString_number (\<bar>n\<bar> div factor u) = number_digits q"
    using q0 by (simp add: QString_number_def q_def)
  have rn: "QString_number (\<bar>n\<bar> mod factor u) = number_digits r"
    using r0 by (simp add: QString_number_def r_def)
  define qs1 where "qs1 =
    (if justify then rightJustified (MAX_DIGITS_MYT - decimals u) ch_space (number_digits q)
     else number_digits q)"
  define qs2 where "qs2 =
    (if sep = ALWAYS \<or> (sep = STANDARD \<and> length qs1 > 4)
     then insert_separators (length qs1) 3 qs1 else qs1)"
  define qs3 where "qs3 =
    (if n < 0 then QString_insert 0 ch_minus qs2
     else if fPlus \<and> n > 0 then QString_insert 0 ch_plus qs2 else qs2)"
  have f: "format u n fPlus sep justify =
     (if decimals u > 0
      then qs3 @ [ch_dot] @ rightJustified (decimals u) ch_zero (number_digits r)
      else qs3)"
    unfolding format_def Let_def nabs qn rn qs1_def qs2_def qs3_def by simp
  have r1: "removeSpaces qs1 = number_digits q"
    by (simp add: qs1_def rightJustified_def removeSpaces_append removeSpaces_spaces
        removeSpaces_number_digits)
  have r2: "removeSpaces qs2 = number_digits q"
    by (simp add: qs2_def removeSpaces_insert_separators r1)
  have r3: "removeSpaces qs3 =
     (if n < 0 then [ch_minus] else if fPlus \<and> 0 < n then [ch_plus] else []) @ number_digits q"
    by (simp add: qs3_def QString_insert_def removeSpaces_sign r2)
  show ?thesis
    unfolding f
    by (simp add: removeSpaces_append removeSpaces_sign r3 rightJustified_def
        removeSpaces_zeros removeSpaces_number_digits)
qed


lemma int_div_less:
  fixes a b c :: int
  assumes "0 < b" and "a < c * b"
  shows "a div b < c"
proof (rule ccontr)
  assume "\<not> a div b < c"
  then have "c * b \<le> a div b * b" using assms(1) by (simp add: mult_right_mono)
  also have "\<dots> \<le> a div b * b + a mod b"
    using pos_mod_sign [OF assms(1), of a] by linarith
  also have "\<dots> = a" by (rule div_mult_mod_eq)
  finally show False using assms(2) by simp
qed

lemma parse_format_general:
  fixes n :: int and u :: Unit
  assumes bound: "\<bar>n\<bar> < 10 ^ 17"
  shows "parse u (format u n fPlus sep justify) val_out =
           (True, case val_out of None \<Rightarrow> None | Some old \<Rightarrow> Some n)"
proof -
  define d where "d = decimals u"
  define q where "q = nat (\<bar>n\<bar> div factor u)"
  define r where "r = nat (\<bar>n\<bar> mod factor u)"
  define sg where "sg = (if n < 0 then [ch_minus] else if fPlus \<and> 0 < n then [ch_plus] else [])"
  define rs where "rs = (if 0 < d then replicate (d - length (number_digits r)) ch_zero @ number_digits r else [])"
  define v where "v = format u n fPlus sep justify"
  have fac: "factor u = 10 ^ d" by (simp add: d_def factor_decimals)
  have d8: "d \<le> 8" by (simp add: d_def decimals_le_8)
  have rv: "removeSpaces v = sg @ number_digits q @ (if 0 < d then ch_dot # rs else [])"
    unfolding v_def sg_def q_def r_def rs_def d_def by (simp add: format_removeSpaces)
  have vne: "v \<noteq> []"
  proof
    assume "v = []"
    then have "removeSpaces v = []" by (simp add: removeSpaces_filter)
    then show False using rv number_digits_nonempty [of q] by simp
  qed
  have r_lt: "r < 10 ^ d"
  proof -
    have "\<bar>n\<bar> mod factor u < factor u" using factor_pos [of u] by simp
    then have "int r < 10 ^ d" using factor_pos [of u] by (simp add: r_def fac)
    then show ?thesis by (metis of_nat_less_iff of_nat_numeral of_nat_power)
  qed
  have q_lt: "q < 10 ^ (17 - d)"
  proof -
    have "(10::int) ^ 17 = 10 ^ (17 - d) * 10 ^ d"
      using d8 by (simp add: power_add [symmetric])
    then have "\<bar>n\<bar> < 10 ^ (17 - d) * 10 ^ d" using bound by simp
    then have "\<bar>n\<bar> div 10 ^ d < 10 ^ (17 - d)"
      by (intro int_div_less) simp_all
    then have "int q < 10 ^ (17 - d)" by (simp add: q_def fac)
    then show ?thesis by (metis of_nat_less_iff of_nat_numeral of_nat_power)
  qed
  have len_rs: "length rs = d"
  proof (cases "0 < d")
    case True
    then have "length (number_digits r) \<le> d" using r_lt by (rule length_number_digits)
    then show ?thesis using True by (simp add: rs_def)
  next
    case False
    then show ?thesis by (simp add: rs_def)
  qed
  have val_rs: "digits_value rs = r"
  proof (cases "0 < d")
    case True
    then show ?thesis
      by (simp add: rs_def digits_value_append digits_value_zeros digits_value_number_digits)
  next
    case False
    then have "r = 0" using r_lt by simp
    then show ?thesis using False by (simp add: rs_def digits_value_def)
  qed
  have dig_rs: "list_all is_digit rs"
    using number_digits_all_digits [of r] is_digit_ch_zero
    by (auto simp: rs_def list_all_iff)
  have len_q: "length (number_digits q) \<le> 17 - d"
    using d8 q_lt by (intro length_number_digits) simp_all
  define ds where "ds = number_digits q @ rs"
  have ds_ne: "ds \<noteq> []" by (simp add: ds_def number_digits_nonempty)
  have ds_dig: "list_all is_digit ds" by (simp add: ds_def number_digits_all_digits dig_rs)
  have ds_val: "int (digits_value ds) = \<bar>n\<bar>"
  proof -
    have "int (digits_value ds) = int q * 10 ^ d + int r"
      by (simp add: ds_def digits_value_append digits_value_number_digits len_rs val_rs)
    also have "\<dots> = (\<bar>n\<bar> div factor u) * factor u + \<bar>n\<bar> mod factor u"
      using factor_pos [of u] by (simp add: q_def r_def fac pos_imp_zdiv_nonneg_iff)
    finally show ?thesis by simp
  qed
  have ds_len: "length ds \<le> 17" using len_q d8 by (simp add: ds_def len_rs)
  have ds_small: "digits_value ds < 2 ^ 63"
  proof -
    have "int (digits_value ds) < 2 ^ 63" using ds_val bound by simp
    then show ?thesis by (metis of_nat_less_iff of_nat_numeral of_nat_power)
  qed
  have nodot_sgq: "ch_dot \<notin> set (sg @ number_digits q)"
    using number_digits_all_digits [of q] is_digit_not_special
    by (auto simp: sg_def list_all_iff ch_dot_def ch_minus_def ch_plus_def)
  have nodot_rs: "ch_dot \<notin> set rs"
    using dig_rs is_digit_not_special by (auto simp: list_all_iff)
  have parts: "QString_split ch_dot (removeSpaces v) =
      (if 0 < d then [sg @ number_digits q, rs] else [sg @ number_digits q])"
  proof (cases "0 < d")
    case True
    have "QString_split ch_dot ((sg @ number_digits q) @ ch_dot # rs) = [sg @ number_digits q, rs]"
      using nodot_sgq nodot_rs by (rule QString_split_one_sep)
    then show ?thesis using True by (simp add: rv)
  next
    case False
    have "QString_split ch_dot (sg @ number_digits q) = [sg @ number_digits q]"
      using nodot_sgq by (rule QString_split_no_sep)
    then show ?thesis using False by (simp add: rv)
  qed
  have rs0: "\<not> 0 < d \<Longrightarrow> rs = []" by (simp add: rs_def)
  have str: "parse u v val_out =
      (let (retvalue, ok) = toLongLong (sg @ ds)
       in (ok, case val_out of None \<Rightarrow> None | Some old \<Rightarrow> Some retvalue))"
  proof (cases "0 < d")
    case True
    show ?thesis
      unfolding parse_def Let_def parts d_def [symmetric]
      using True vne ds_len by (simp add: leftJustified_def len_rs ds_def sg_def)
  next
    case False
    show ?thesis
      unfolding parse_def Let_def parts d_def [symmetric]
      using False vne ds_len rs0 by (simp add: leftJustified_def ds_def sg_def)
  qed
  have "toLongLong (sg @ ds) = (n, True)"
  proof (cases "n < 0")
    case True
    then show ?thesis
      using toLongLong_digits(3) [OF ds_ne ds_dig ds_small] ds_val by (simp add: sg_def)
  next
    case False
    then show ?thesis
      using toLongLong_digits(1,2) [OF ds_ne ds_dig ds_small] ds_val by (simp add: sg_def)
  qed
  then show ?thesis unfolding v_def [symmetric] str by simp
qed


text \<open>
  The bound of 17 digits in \<open>parse_format_general\<close> cannot be raised for negative
  amounts: \<open>-10^17\<close> is formatted with a sign and 18 digits, one character more than
  \<open>parse\<close> admits.
\<close>

lemma number_digits_1e17:
  "number_digits 100000000000000000 =
     [digit_of 1, digit_of 0, digit_of 0, digit_of 0, digit_of 0, digit_of 0, digit_of 0,
      digit_of 0, digit_of 0, digit_of 0, digit_of 0, digit_of 0, digit_of 0, digit_of 0,
      digit_of 0, digit_of 0, digit_of 0, digit_of 0]"
  by (simp add: number_digits.simps)

lemma format_parse_bound_sharp:
  "parse SAT (format SAT (- 100000000000000000) False STANDARD False) (Some 0) = (False, Some 0)"
proof -
  define v where "v = format SAT (- 100000000000000000) False STANDARD False"
  have rv: "removeSpaces v = ch_minus # number_digits 100000000000000000"
    unfolding v_def by (simp add: format_removeSpaces)
  have vne: "v \<noteq> []"
  proof
    assume "v = []"
    then have "removeSpaces v = []" by (simp add: removeSpaces_filter)
    then show False using rv by simp
  qed
  have "ch_dot \<notin> set (removeSpaces v)"
    using number_digits_all_digits [of 100000000000000000] is_digit_not_special
    by (auto simp: rv list_all_iff ch_dot_def ch_minus_def)
  then have parts: "QString_split ch_dot (removeSpaces v) = [removeSpaces v]"
    by (rule QString_split_no_sep)
  have len: "length (removeSpaces v) = 19" by (simp add: rv number_digits_1e17)
  show ?thesis
    unfolding v_def [symmetric] parse_def Let_def parts
    using vne len by (simp add: leftJustified_def)
qed

lemma QString_split_unfold:
  "QString_split sep s =
     takeWhile (\<lambda>c. c \<noteq> sep) s #
       (if sep \<in> set s then QString_split sep (drop 1 (dropWhile (\<lambda>c. c \<noteq> sep) s)) else [])"
  by (induction s) (auto split: list.splits)

lemma count_list_0_iff: "count_list s x = 0 \<longleftrightarrow> x \<notin> set s"
  by (induction s) auto

lemma count_list_dropWhile:
  "x \<in> set s \<Longrightarrow>
     count_list s x = Suc (count_list (drop 1 (dropWhile (\<lambda>c. c \<noteq> x) s)) x)"
  by (induction s) auto

lemma parts_at_most_one_dot:
  assumes "count_list s ch_dot \<le> 1"
  shows "hd (QString_split ch_dot s) = whole_part s"
    and "(if length (QString_split ch_dot s) > 1 then QString_split ch_dot s ! 1 else [])
           = fraction_part s"
proof -
  show "hd (QString_split ch_dot s) = whole_part s"
    by (subst QString_split_unfold) (simp add: whole_part_def)
  show "(if length (QString_split ch_dot s) > 1 then QString_split ch_dot s ! 1 else [])
           = fraction_part s"
  proof (cases "ch_dot \<in> set s")
    case True
    then have "count_list (fraction_part s) ch_dot = 0"
      using assms count_list_dropWhile [of ch_dot s] by (simp add: fraction_part_def)
    then have "ch_dot \<notin> set (fraction_part s)" by (simp add: count_list_0_iff)
    then have "QString_split ch_dot (fraction_part s) = [fraction_part s]"
      by (rule QString_split_no_sep)
    then have "QString_split ch_dot s = [whole_part s, fraction_part s]"
      using True by (subst QString_split_unfold) (simp add: whole_part_def fraction_part_def)
    then show ?thesis by simp
  next
    case False
    then have "\<forall>x\<in>set s. x \<noteq> ch_dot" by blast
    then have "dropWhile (\<lambda>c. c \<noteq> ch_dot) s = []" by (simp only: dropWhile_eq_Nil_conv)
    then have "fraction_part s = []" unfolding fraction_part_def by (simp only: drop_Nil)
    moreover have "QString_split ch_dot s = [s]" using False by (rule QString_split_no_sep)
    ultimately show ?thesis by simp
  qed
qed

lemma toLongLong_empty: "toLongLong [] = (0, False)"
  by (simp add: toLongLong_def trimmed_def)

section \<open>The claims about \<open>MytherraUnits\<close>\<close>

text \<open>
  Claim C8 (format/parse round trip). For every unit and every amount \<open>n\<close> with
  \<open>\<bar>n\<bar> \<le> MAX_MONEY\<close>, parsing \<open>format(unit, n, false, SeparatorStyle::STANDARD)\<close>
  returns true and stores \<open>n\<close>. \<open>MAX_MONEY\<close> is declared in \<open>consensus/amount.h\<close>;
  it enters as a parameter, of which the proof needs that it is below \<open>10^17\<close>
  (a sign and 17 digits are the 18 characters \<open>parse\<close> admits).
\<close>

theorem format_parse_roundtrip:
  fixes n MAX_MONEY out :: CAmount
  assumes "\<bar>n\<bar> \<le> MAX_MONEY" and "MAX_MONEY < 10 ^ 17"
  shows "parse u (format u n False STANDARD False) (Some out) = (True, Some n)"
proof -
  have "\<bar>n\<bar> < 10 ^ 17" using assms by simp
  then show ?thesis by (simp add: parse_format_general)
qed

theorem format_parse_roundtrip_witness:
  "\<bar>- 123456789012345\<bar> \<le> (2100000000000000 :: int) \<and>
   (2100000000000000 :: int) < 10 ^ 17 \<and>
   parse MYT (format MYT (- 123456789012345) False STANDARD False) (Some 0)
     = (True, Some (- 123456789012345))"
  using format_parse_roundtrip [of "- 123456789012345" 2100000000000000 MYT 0]
  by simp

text \<open>
  Claim C9 (what \<open>parse\<close> rejects). As stated the claim fails: the emptiness test of
  \<open>parse\<close> is made on the raw input, before the spaces are removed, so an input of
  one space passes it, and for a unit with decimals the zero padding turns the empty
  fraction into \<open>"00000000"\<close>, which \<open>toLongLong\<close> reads as 0.
\<close>

theorem parse_blank_counterexample:
  "removeSpaces [ch_space] = [] \<and> parse MYT [ch_space] (Some 7) = (True, Some 0)"
  by code_simp

text \<open>
  Claim C9, amended. \<open>parse\<close> returns false whenever the input itself is empty, or it
  is empty after removing the spaces and the unit has no decimals, or, after removing
  the spaces, it has more than one \<open>'.'\<close>, or a fraction longer than
  \<open>decimals(unit)\<close>, or a whole part and zero-padded fraction of more than 18
  characters together.
\<close>

theorem parse_rejects:
  assumes "val = []
     \<or> (removeSpaces val = [] \<and> decimals u = 0)
     \<or> 1 < count_list (removeSpaces val) ch_dot
     \<or> decimals u < length (fraction_part (removeSpaces val))
     \<or> 18 < length (whole_part (removeSpaces val) @
                leftJustified (decimals u) ch_zero (fraction_part (removeSpaces val)))"
  shows "fst (parse u val val_out) = False"
proof (cases "val = [] \<or> 1 < count_list (removeSpaces val) ch_dot")
  case True
  then show ?thesis
    by (auto simp: parse_def Let_def length_QString_split)
next
  case False
  then have one: "count_list (removeSpaces val) ch_dot \<le> 1" by simp
  note p = parts_at_most_one_dot [OF one]
  have len: "\<not> length (QString_split ch_dot (removeSpaces val)) > 2"
    using one by (simp add: length_QString_split)
  have unfold: "parse u val val_out =
    (if length (fraction_part (removeSpaces val)) > decimals u then (False, val_out)
     else let str = whole_part (removeSpaces val) @
                leftJustified (decimals u) ch_zero (fraction_part (removeSpaces val))
          in if length str > 18 then (False, val_out)
             else (let (retvalue, ok) = toLongLong str
                   in (ok, (case val_out of None \<Rightarrow> None | Some old \<Rightarrow> Some retvalue))))"
    using False len unfolding parse_def Let_def p by simp
  from assms False consider
      (blank) "removeSpaces val = []" "decimals u = 0"
    | (prec) "decimals u < length (fraction_part (removeSpaces val))"
    | (long) "18 < length (whole_part (removeSpaces val) @
                leftJustified (decimals u) ch_zero (fraction_part (removeSpaces val)))"
    by auto
  then show ?thesis
  proof cases
    case blank
    then show ?thesis unfolding unfold
      by (simp add: whole_part_def fraction_part_def leftJustified_def toLongLong_empty)
  next
    case prec
    then show ?thesis unfolding unfold by simp
  next
    case long
    then show ?thesis unfolding unfold by (simp add: Let_def)
  qed
qed

theorem parse_rejects_witness:
  "1 < count_list (removeSpaces [0x31, ch_dot, 0x32, ch_dot, 0x33]) ch_dot \<and>
   fst (parse MYT [0x31, ch_dot, 0x32, ch_dot, 0x33] (Some 5)) = False"
  using parse_rejects [of "[0x31, ch_dot, 0x32, ch_dot, 0x33]" MYT "Some 5"]
  by (simp add: removeSpaces_filter ch_dot_def ch_space_def THIN_SP_CP_def)

text \<open>
  Claim C10 (unit serialisation round trip). For every unit \<open>u\<close>,
  \<open>FromQint8(ToQint8(u))\<close> is \<open>u\<close>, so a unit written to a stream with \<open>operator<<\<close>
  and read back with \<open>operator>>\<close> is the original unit.
\<close>

theorem unit_serialization_roundtrip:
  "FromQint8 (ToQint8 u) = Some u \<and> read_unit (write_unit [] u) = (Some u, [])"
  by (cases u)
    (simp_all add: FromQint8_def read_unit_def write_unit_def stream_read_qint8_def
      stream_write_qint8_def)

section \<open>Lemmas about connecting and disconnecting\<close>

lemma delete_outputs_append:
  "delete_outputs S (a @ b) =
     (case delete_outputs S a of Inl e \<Rightarrow> Inl e | Inr S1 \<Rightarrow> delete_outputs S1 b)"
  by (induction a arbitrary: S) (auto split: option.splits)

lemma resurrect_append:
  "resurrect S (a @ b) =
     (case resurrect S a of Inl e \<Rightarrow> Inl e | Inr S1 \<Rightarrow> resurrect S1 b)"
  by (induction a arbitrary: S) (auto split: sum.splits)

lemma disconnect_txs_append:
  "disconnect_txs S (a @ b) =
     (case disconnect_txs S a of Inl e \<Rightarrow> Inl e | Inr S1 \<Rightarrow> disconnect_txs S1 b)"
  by (induction a arbitrary: S) (auto split: sum.splits)

lemma spend_then_add:
  "spendCoin S r = Some (c, S') \<Longrightarrow> addCoin S' r c = Inr S"
  by (auto simp: spendCoin_def addCoin_def split: option.splits)

lemma add_then_spend:
  "addCoin S r c = Inr S' \<Longrightarrow> spendCoin S' r = Some (c, S)"
  by (auto simp: spendCoin_def addCoin_def split: option.splits)

lemma spend_inputs_undone:
  "spend_inputs S ins = Inr (S1, sp) \<Longrightarrow> resurrect S1 (rev sp) = Inr S"
proof (induction ins arbitrary: S S1 sp)
  case Nil
  then show ?case by simp
next
  case (Cons i ins)
  from Cons.prems obtain c S' sp' where
    s: "spendCoin S (prevout i) = Some (c, S')" and
    r: "spend_inputs S' ins = Inr (S1, sp')" and
    sp: "sp = (prevout i, c) # sp'"
    by (auto split: option.splits sum.splits)
  have "resurrect S1 (rev sp') = Inr S'" using r by (rule Cons.IH)
  then show ?case using spend_then_add [OF s] by (simp add: sp resurrect_append)
qed

lemma create_outputs_undone:
  "create_outputs S t h rw k outs = Inr (S1, cr) \<Longrightarrow> delete_outputs S1 (rev cr) = Inr S"
proof (induction outs arbitrary: S S1 cr k)
  case Nil
  then show ?case by simp
next
  case (Cons out outs)
  from Cons.prems obtain S' cr' where
    a: "addCoin S (t, k) \<lparr>coin_value = out_value out, coin_lock = out_lock out,
              coin_height = h, coin_reward = rw\<rparr> = Inr S'" and
    r: "create_outputs S' t h rw (Suc k) outs = Inr (S1, cr')" and
    cr: "cr = (t, k) # cr'"
    by (auto split: sum.splits)
  have "delete_outputs S1 (rev cr') = Inr S'" using r by (rule Cons.IH)
  then show ?case using add_then_spend [OF a] by (simp add: cr delete_outputs_append)
qed

lemma connect_tx_undone:
  assumes "connect_tx verify flags h S tx = Inr (S2, u)"
  shows "disconnect_tx S2 u = Inr S"
proof -
  from assms obtain S1 sp cr where
    s: "(if is_reward tx then Inr (S, []) else spend_inputs S (tx_inputs tx)) = Inr (S1, sp)" and
    c: "create_outputs S1 (txid tx) h (is_reward tx) 0 (tx_outputs tx) = Inr (S2, cr)" and
    u: "u = \<lparr>spent = sp, created = cr\<rparr>"
    unfolding connect_tx_def by (auto split: sum.splits if_splits)
  have d: "delete_outputs S2 (rev cr) = Inr S1" using c by (rule create_outputs_undone)
  have "resurrect S1 (rev sp) = Inr S"
  proof (cases "is_reward tx")
    case True
    then show ?thesis using s by simp
  next
    case False
    then show ?thesis using s spend_inputs_undone by simp
  qed
  then show ?thesis by (simp add: disconnect_tx_def u d)
qed

lemma connect_txs_undone:
  "connect_txs verify flags h S txs = Inr (S2, us) \<Longrightarrow> disconnect_txs S2 (rev us) = Inr S"
proof (induction txs arbitrary: S S2 us)
  case Nil
  then show ?case by simp
next
  case (Cons tx txs)
  from Cons.prems obtain S1 u us' where
    c: "connect_tx verify flags h S tx = Inr (S1, u)" and
    r: "connect_txs verify flags h S1 txs = Inr (S2, us')" and
    us: "us = u # us'"
    by (auto split: sum.splits)
  have "disconnect_txs S2 (rev us') = Inr S1" using r by (rule Cons.IH)
  then show ?case using connect_tx_undone [OF c] by (simp add: us disconnect_txs_append)
qed

lemma example_connects:
  "\<exists>S' undo. connect_block always_valid 0 (\<lambda>h. 25) 2 example_utxo example_block = Inr (S', undo)"
  by (simp add: connect_block_def connect_tx_def example_utxo_def example_block_def
      spendCoin_def addCoin_def value_in_def value_out_def always_valid_def reward_claimed_def)

section \<open>The claim about the UTXO set\<close>

text \<open>
  Claim C1 (the undo log round trip). For every block and every UTXO set \<open>S\<close>:
  when connecting the block to \<open>S\<close> succeeds, with the undo log it recorded,
  disconnecting the block with that undo log succeeds and gives back exactly \<open>S\<close>.
\<close>

theorem disconnect_connect_roundtrip:
  assumes "connect_block verify flags subsidy h S txs = Inr (S', undo)"
  shows "disconnect_block S' undo = Inr S"
proof -
  from assms have "connect_txs verify flags h S txs = Inr (S', undo)"
    unfolding connect_block_def by (auto split: sum.splits if_splits)
  then show ?thesis unfolding disconnect_block_def by (rule connect_txs_undone)
qed

theorem disconnect_connect_roundtrip_witness:
  "case connect_block always_valid 0 (\<lambda>h. 25) 2 example_utxo example_block of
     Inl e \<Rightarrow> False
   | Inr (S', undo) \<Rightarrow> disconnect_block S' undo = Inr example_utxo"
proof -
  obtain S' undo where
    c: "connect_block always_valid 0 (\<lambda>h. 25) 2 example_utxo example_block = Inr (S', undo)"
    using example_connects by blast
  show ?thesis using disconnect_connect_roundtrip [OF c] by (simp add: c)
qed

text \<open>
  A reference spent twice in one block. Transaction identifiers are data in this model,
  and the specification does not say what keeps them apart: when the reference is
  created again between the two spends the block connects, and when an earlier output
  collides with an existing coin the block stops with \<open>InternalInvariant\<close> before
  the second spend is reached.
\<close>

lemma recreate_block_connects:
  "\<exists>S' undo.
     connect_block always_valid 0 (\<lambda>h. 25) 2 example_utxo recreate_block = Inr (S', undo)"
  by (simp add: connect_block_def connect_tx_def example_utxo_def recreate_block_def
      spendCoin_def addCoin_def value_in_def value_out_def always_valid_def reward_claimed_def)

lemma collide_block_fails:
  "connect_block always_valid 0 (\<lambda>h. 25) 2 example_utxo collide_block = Inl InternalInvariant"
  by (simp add: connect_block_def connect_tx_def example_utxo_def collide_block_def
      spendCoin_def addCoin_def)

section \<open>Lemmas about the block index\<close>

lemma wf_from_append:
  "wf_from seen (a @ b) = (wf_from seen a \<and> wf_from (rev (map node_hash a) @ seen) b)"
  by (induction a arbitrary: seen) auto

lemma wf_from_distinct:
  "wf_from seen idx \<Longrightarrow> distinct (map node_hash idx) \<and> set (map node_hash idx) \<inter> set seen = {}"
proof (induction idx arbitrary: seen)
  case Nil
  show ?case by simp
next
  case (Cons n ns)
  from Cons.prems have a: "node_hash n \<notin> set seen" and w: "wf_from (node_hash n # seen) ns"
    by simp_all
  from Cons.IH [OF w] have "distinct (map node_hash ns)"
    and "set (map node_hash ns) \<inter> set (node_hash n # seen) = {}" by blast+
  then show ?case using a by auto
qed

lemma wf_index_distinct: "wf_index idx \<Longrightarrow> distinct (map node_hash idx)"
  unfolding wf_index_def using wf_from_distinct by blast

lemma wf_index_parent:
  assumes "wf_index (pre @ n # post)" and "node_parent n = Some p"
  shows "p \<in> node_hash ` set pre"
  using assms unfolding wf_index_def by (simp add: wf_from_append)

lemma lookup_node_None: "lookup_node idx h = None \<longleftrightarrow> h \<notin> node_hash ` set idx"
  by (auto simp: lookup_node_def find_None_iff)

lemma lookup_node_Some: "lookup_node idx h = Some n \<Longrightarrow> n \<in> set idx \<and> node_hash n = h"
  by (auto simp: lookup_node_def find_Some_iff)

lemma addHeader_wf: "wf_index idx \<Longrightarrow> wf_index (fst (addHeader idx hdr))"
  unfolding wf_index_def addHeader_def
  by (auto simp: wf_from_append lookup_node_None Let_def dest!: lookup_node_Some
      split: option.splits)


lemma same_hash_same_node:
  assumes "distinct (map node_hash idx)" and "x \<in> set idx" and "y \<in> set idx"
    and "node_hash x = node_hash y"
  shows "x = y"
  using assms by (meson distinct_map inj_on_def)

lemma same_hash_same_pos:
  assumes "distinct (map node_hash idx)" and "i < length idx" and "j < length idx"
    and "node_hash (idx ! i) = node_hash (idx ! j)"
  shows "i = j"
  using assms nth_eq_iff_index_eq [of "map node_hash idx" i j] by simp

lemma parent_position:
  assumes wf: "wf_index idx" and i: "i < length idx" and p: "node_parent (idx ! i) = Some a"
  shows "\<exists>j<i. node_hash (idx ! j) = a"
proof -
  have "idx = take i idx @ idx ! i # drop (Suc i) idx" using i by (rule id_take_nth_drop)
  then have "wf_index (take i idx @ idx ! i # drop (Suc i) idx)" using wf by simp
  then have "a \<in> node_hash ` set (take i idx)" using p by (rule wf_index_parent)
  then obtain x where x: "x \<in> set (take i idx)" "node_hash x = a" by blast
  then obtain j where "j < length (take i idx)" "take i idx ! j = x"
    by (auto simp: in_set_conv_nth)
  then have "j < i" "idx ! j = x" using i by simp_all
  then show ?thesis using x by blast
qed

lemma descendant_order:
  assumes wf: "wf_index idx" and d: "descendant idx a d"
  shows "\<exists>i j. j < i \<and> i < length idx \<and> node_hash (idx ! i) = d \<and> node_hash (idx ! j) = a"
  using d
proof (induction rule: descendant.induct)
  case (child n)
  then obtain i where i: "i < length idx" "idx ! i = n" by (auto simp: in_set_conv_nth)
  then obtain j where "j < i" "node_hash (idx ! j) = a"
    using parent_position [OF wf, of i a] child by auto
  then show ?case using i by blast
next
  case (step m n)
  then obtain i1 j1 where
    m: "j1 < i1" "i1 < length idx" "node_hash (idx ! i1) = m" "node_hash (idx ! j1) = a"
    by blast
  from step obtain i where i: "i < length idx" "idx ! i = n" by (auto simp: in_set_conv_nth)
  then obtain j where j: "j < i" "node_hash (idx ! j) = m"
    using parent_position [OF wf, of i m] step by auto
  have "j < length idx" using j i by simp
  then have "j = i1"
    using same_hash_same_pos [OF wf_index_distinct [OF wf], of j i1] j m by simp
  then have "j1 < i" using m j by simp
  then have "j1 < i \<and> i < length idx \<and> node_hash (idx ! i) = node_hash n
      \<and> node_hash (idx ! j1) = a"
    using i m by simp
  then show ?case by blast
qed

lemma descendant_irrefl:
  assumes wf: "wf_index idx"
  shows "\<not> descendant idx h h"
proof
  assume "descendant idx h h"
  then obtain i j where
    ij: "j < i" "i < length idx" "node_hash (idx ! i) = h" "node_hash (idx ! j) = h"
    using descendant_order [OF wf] by blast
  then have "j = i"
    using same_hash_same_pos [OF wf_index_distinct [OF wf], of j i] by simp
  then show False using ij by simp
qed

lemma descendant_iff_parent:
  assumes wf: "wf_index idx" and n: "n \<in> set idx"
  shows "descendant idx h (node_hash n) \<longleftrightarrow>
           (\<exists>p. node_parent n = Some p \<and> (p = h \<or> descendant idx h p))"
proof
  assume "descendant idx h (node_hash n)"
  then show "\<exists>p. node_parent n = Some p \<and> (p = h \<or> descendant idx h p)"
  proof (cases rule: descendant.cases)
    case (child n')
    then have "n' = n" using same_hash_same_node [OF wf_index_distinct [OF wf]] n by simp
    then show ?thesis using child by simp
  next
    case (step m n')
    then have "n' = n" using same_hash_same_node [OF wf_index_distinct [OF wf]] n by simp
    then show ?thesis using step by auto
  qed
next
  assume "\<exists>p. node_parent n = Some p \<and> (p = h \<or> descendant idx h p)"
  then show "descendant idx h (node_hash n)"
    using n by (auto intro: descendant.child descendant.step)
qed

lemma mark_pass_marked:
  assumes wf: "wf_index idx"
  shows "idx = pre @ post \<Longrightarrow>
     set bad = {x \<in> node_hash ` set pre. x = h \<or> descendant idx h x} \<Longrightarrow>
     mark_pass h bad post = map (marked idx h) post"
proof (induction post arbitrary: pre bad)
  case Nil
  show ?case by simp
next
  case (Cons n ns)
  have idx: "idx = (pre @ [n]) @ ns" using Cons.prems(1) by simp
  have n: "n \<in> set idx" using Cons.prems(1) by simp
  have par: "\<And>p. node_parent n = Some p \<Longrightarrow> p \<in> node_hash ` set pre"
    using wf Cons.prems(1) wf_index_parent by blast
  have cond: "(case node_parent n of None \<Rightarrow> False | Some p \<Rightarrow> p \<in> set bad)
      \<longleftrightarrow> descendant idx h (node_hash n)"
    using descendant_iff_parent [OF wf n, of h] par Cons.prems(2)
    by (auto split: option.splits)
  show ?case
  proof (cases "node_hash n = h")
    case True
    have "set (node_hash n # bad) = {x \<in> node_hash ` set (pre @ [n]). x = h \<or> descendant idx h x}"
      using True Cons.prems(2) by auto
    from Cons.IH [OF idx this] show ?thesis using True by (simp add: marked_def)
  next
    case False
    show ?thesis
    proof (cases "descendant idx h (node_hash n)")
      case True
      have "set (node_hash n # bad) = {x \<in> node_hash ` set (pre @ [n]). x = h \<or> descendant idx h x}"
        using True Cons.prems(2) by auto
      from Cons.IH [OF idx this] show ?thesis using True False cond by (simp add: marked_def)
    next
      case d: False
      have "set bad = {x \<in> node_hash ` set (pre @ [n]). x = h \<or> descendant idx h x}"
        using d False Cons.prems(2) by auto
      from Cons.IH [OF idx this] show ?thesis using d False cond by (simp add: marked_def)
    qed
  qed
qed

lemma markInvalid_marked:
  assumes "wf_index idx"
  shows "fst (markInvalid idx h) = map (marked idx h) idx"
  using mark_pass_marked [OF assms, of "[]" idx "[]" h] by (simp add: markInvalid_def Let_def)

lemma foldl_better:
  "foldl better acc idx = Some b \<Longrightarrow> acc = Some b \<or> (b \<in> set idx \<and> is_candidate b)"
  by (induction idx arbitrary: acc) (auto simp: better_def split: if_splits)

lemma findBestCandidate_candidate:
  "findBestCandidate idx = Some b \<Longrightarrow> b \<in> set idx \<and> is_candidate b"
  unfolding findBestCandidate_def using foldl_better by fastforce

section \<open>The claim about the block index\<close>

text \<open>
  Claim C4 (transitive invalidation). After node \<open>h\<close> of a block index is marked
  invalid, the index holds the same nodes, \<open>h\<close> has status \<open>Invalid\<close>, every
  descendant of \<open>h\<close> has status \<open>InvalidAncestor\<close>, and the best candidate
  computed afterwards is neither \<open>h\<close> nor a descendant of \<open>h\<close>.
\<close>

theorem markInvalid_transitive:
  assumes wf: "wf_index idx"
  shows "map node_hash (fst (markInvalid idx h)) = map node_hash idx
     \<and> (\<forall>n \<in> set (fst (markInvalid idx h)).
           (node_hash n = h \<longrightarrow> status n = Invalid)
         \<and> (descendant idx h (node_hash n) \<longrightarrow> status n = InvalidAncestor))
     \<and> (\<forall>b. snd (markInvalid idx h) = Some b \<longrightarrow>
           node_hash b \<noteq> h \<and> \<not> descendant idx h (node_hash b))"
proof -
  note m = markInvalid_marked [OF wf, of h]
  have irr: "\<not> descendant idx h h" using wf by (rule descendant_irrefl)
  have hashes: "map node_hash (fst (markInvalid idx h)) = map node_hash idx"
    unfolding m by (simp add: marked_def)
  have st: "\<forall>n \<in> set (fst (markInvalid idx h)).
           (node_hash n = h \<longrightarrow> status n = Invalid)
         \<and> (descendant idx h (node_hash n) \<longrightarrow> status n = InvalidAncestor)"
    unfolding m using irr by (auto simp: marked_def)
  have best: "\<forall>b. snd (markInvalid idx h) = Some b \<longrightarrow>
           node_hash b \<noteq> h \<and> \<not> descendant idx h (node_hash b)"
  proof (intro allI impI)
    fix b
    assume "snd (markInvalid idx h) = Some b"
    then have "findBestCandidate (fst (markInvalid idx h)) = Some b"
      by (simp add: markInvalid_def Let_def)
    then have b: "b \<in> set (fst (markInvalid idx h))" "is_candidate b"
      using findBestCandidate_candidate by blast+
    then show "node_hash b \<noteq> h \<and> \<not> descendant idx h (node_hash b)"
      using st by (auto simp: is_candidate_def)
  qed
  show ?thesis using hashes st best by blast
qed

theorem markInvalid_transitive_witness:
  "wf_index example_index
   \<and> descendant example_index 101 102
   \<and> (\<exists>n \<in> set (fst (markInvalid example_index 101)).
         node_hash n = 102 \<and> status n = InvalidAncestor)
   \<and> map node_hash (fst (markInvalid example_index 101)) = [100, 101, 102, 103]"
proof -
  have wf: "wf_index example_index"
    by (simp add: wf_index_def example_index_def)
  have d: "descendant example_index 101 102"
    using descendant.child [of "\<lparr>node_hash = 102, node_parent = Some 101, chain_work = 31,
        node_height = 2, status = TreeValid\<rparr>" example_index 101]
    by (simp add: example_index_def)
  note t = markInvalid_transitive [OF wf, of 101]
  have hs: "map node_hash (fst (markInvalid example_index 101)) = [100, 101, 102, 103]"
    using t by (simp add: example_index_def)
  then have "102 \<in> node_hash ` set (fst (markInvalid example_index 101))"
    by (metis list.set_intros(1,2) set_map)
  then obtain n where n: "n \<in> set (fst (markInvalid example_index 101))" "node_hash n = 102"
    by auto
  have "descendant example_index 101 (node_hash n)" using d n by simp
  then have "status n = InvalidAncestor" using t n(1) by simp
  then show ?thesis using wf d hs n by auto
qed

end
